theory Spec2Isabelle
  imports Main "HOL-Library.Multiset"
begin

section \<open>Strings and numbers of the source\<close>

text \<open>
  The program is TypeScript. A source string is a sequence of UTF-16 code units and
  \<open>s.length\<close> counts them, so a string is modelled as the list of its code units and
  \<open>length\<close> is \<open>.length\<close>. An ASCII literal of the source is written \<open>js ''...''\<close>.
\<close>

type_synonym jsstring = "nat list"

definition js :: "string \<Rightarrow> jsstring" where
  "js s = map of_char s"

definition nl :: jsstring where
  "nl = [10]"

text \<open>
  The non-ASCII literals of the source file, given by the code units the file holds
  between the quotes: the mark of a closed task (lines 843, 855, 974, 1140, 1152), the
  mark of an invalidated task (lines 843, 974, 1140, 1152), and the pictographs in front
  of notes, due dates, priorities and tags.
\<close>

definition glyph_closed :: jsstring where
  "glyph_closed = [0xE2, 0x153, 0x201C]"

definition glyph_invalidated :: jsstring where
  "glyph_invalidated = [0xE2, 0x153, 0x2014]"

definition glyph_memo :: jsstring where
  "glyph_memo = [0x11F, 0x178, 0x201C]"

definition glyph_note_tree :: jsstring where
  "glyph_note_tree = [0x11F, 0x178, 0x2019, 0xAC]"

definition glyph_due :: jsstring where
  "glyph_due = [0x11F, 0x178, 0x201C, 0x2026]"

definition glyph_priority :: jsstring where
  "glyph_priority = [0xE2, 0x161, 0xA0, 0xEF, 0xB8]"

definition glyph_tags :: jsstring where
  "glyph_tags = [0x11F, 0x178, 0xB7, 0xEF, 0xB8]"

definition glyph_clipboard :: jsstring where
  "glyph_clipboard = [0x11F, 0x178, 0x201C, 0x2039]"

definition glyph_zap :: jsstring where
  "glyph_zap = [0xE2, 0x161, 0xA1]"

definition glyph_bulb :: jsstring where
  "glyph_bulb = [0x11F, 0x178, 0x2019, 0xA1]"

definition glyph_tree :: jsstring where
  "glyph_tree = [0x11F, 0x178, 0x152, 0xB3]"

definition glyph_chart :: jsstring where
  "glyph_chart = [0x11F, 0x178, 0x201C, 0x160]"

definition glyph_pin :: jsstring where
  "glyph_pin = [0x11F, 0x178, 0x201C, 0x152]"

definition glyph_page :: jsstring where
  "glyph_page = [0x11F, 0x178, 0x201C, 0x201E]"

definition glyph_done :: jsstring where
  "glyph_done = [0xE2, 0x153, 0x2026]"

text \<open>
  Template literals print a number in decimal. Ids, statuses, priorities and the numbers
  of a request (\<open>max_depth\<close>, \<open>page\<close>) are integers (JSON numbers without a fraction),
  modelled as \<open>int\<close>; counts and depths are \<open>nat\<close>. The source's numbers are doubles:
  \<open>show_nat\<close> and \<open>show_int\<close> are what the source prints for integers of magnitude
  below \<^term>\<open>(2::int) ^ 53\<close>, which are exact and print with all their digits.
\<close>

fun show_nat :: "nat \<Rightarrow> jsstring" where
  "show_nat n = (if n < 10 then [48 + n] else show_nat (n div 10) @ [48 + n mod 10])"

declare show_nat.simps [simp del]

definition show_int :: "int \<Rightarrow> jsstring" where
  "show_int i = (if i < 0 then 45 # show_nat (nat (- i)) else show_nat (nat i))"

text \<open>\<open>'  '.repeat(depth)\<close>\<close>

definition indent_of :: "nat \<Rightarrow> jsstring" where
  "indent_of depth = concat (replicate depth (js ''  ''))"

text \<open>
  \<open>s.length > n ? s.substring(0, n) + '...' : s\<close>, the truncation of titles (40 and 50
  code units) and of notes (150).
\<close>

definition truncate_to :: "nat \<Rightarrow> jsstring \<Rightarrow> jsstring" where
  "truncate_to n s = (if length s > n then take n s @ js ''...'' else s)"

section \<open>Task records\<close>

text \<open>
  A task as the service returns it (the handlers read it as \<open>any\<close>). Fields that may
  be missing are options. \<open>status\<close> is the service's number: 1 is closed, 2 is
  invalidated, anything else is open. \<open>tasks\<close> is the list of the ids of the children.
  The fields \<open>id\<close> and \<open>notes\<close> are named \<open>id_of\<close> and \<open>notes_list\<close> here.
\<close>

record Note =
  comment :: jsstring

record TaskRecord =
  id_of :: int
  parent_id :: int
  content :: jsstring
  status :: int
  tasks :: "int list option"
  due :: "jsstring option"
  priority :: "int option"
  tags_as_text :: "jsstring option"
  notes_list :: "Note list option"

text \<open>
  The guard \<open>task.tasks && task.tasks.length > 0\<close> is \<open>subtasks task \<noteq> []\<close>, and where
  it holds \<open>task.tasks.forEach\<close> runs over \<open>subtasks task\<close>: a missing field reads as
  no children. \<open>notes_of\<close> does the same for \<open>task.notes\<close>.
\<close>

definition subtasks :: "TaskRecord \<Rightarrow> int list" where
  "subtasks task = (case tasks task of None \<Rightarrow> [] | Some ts \<Rightarrow> ts)"

definition notes_of :: "TaskRecord \<Rightarrow> Note list" where
  "notes_of task = (case notes_list task of None \<Rightarrow> [] | Some ns \<Rightarrow> ns)"

text \<open>
  \<open>const taskMap = new Map(); tasks.forEach(task => taskMap.set(task.id, task))\<close>:
  a later record with the same id replaces an earlier one.
\<close>

definition taskMap_of :: "TaskRecord list \<Rightarrow> (int \<rightharpoonup> TaskRecord)" where
  "taskMap_of ts = foldl (\<lambda>m task. m(id_of task \<mapsto> task)) Map.empty ts"

text \<open>\<open>tasks.filter(task => task.parent_id === 0)\<close>\<close>

definition topLevelTasks_of :: "TaskRecord list \<Rightarrow> TaskRecord list" where
  "topLevelTasks_of ts = filter (\<lambda>task. parent_id task = 0) ts"

section \<open>Output\<close>

text \<open>
  Every handler builds its text by appending pieces to a string, one \<open>+=\<close> after the
  other. The model keeps the pieces apart and tagged by what they are, so that they can
  be counted: the text of the source is \<open>text_of\<close> of the list. \<open>TaskLine k s\<close> is the
  line \<open>s\<close> that \<open>formatTask\<close> wrote for the record whose id is \<open>k\<close>, \<open>NoteLine\<close> a
  line for a note, \<open>MarkerLine\<close> a line that stands for children left out, \<open>TextLine\<close>
  any other piece (headers and footers).
\<close>

datatype line =
    TaskLine int jsstring
  | NoteLine jsstring
  | MarkerLine jsstring
  | TextLine jsstring

fun line_text :: "line \<Rightarrow> jsstring" where
  "line_text (TaskLine k s) = s"
| "line_text (NoteLine s) = s"
| "line_text (MarkerLine s) = s"
| "line_text (TextLine s) = s"

definition text_of :: "line list \<Rightarrow> jsstring" where
  "text_of ls = concat (map line_text ls)"

fun rendered_ids :: "line list \<Rightarrow> int list" where
  "rendered_ids [] = []"
| "rendered_ids (TaskLine k s # ls) = k # rendered_ids ls"
| "rendered_ids (l # ls) = rendered_ids ls"

section \<open>checkvist_get_tasks_summary\<close>

text \<open>The status mark of the compact branch (line 843).\<close>

definition status_compact :: "TaskRecord \<Rightarrow> jsstring" where
  "status_compact task =
     (if status task = 1 then glyph_closed
      else if status task = 2 then glyph_invalidated else js '' '')"

text \<open>The status mark of the full branch of the summary (line 855).\<close>

definition status_summary_full :: "TaskRecord \<Rightarrow> jsstring" where
  "status_summary_full task = (if status task = 1 then js ''['' @ glyph_closed @ js '']'' else js ''[ ]'')"

text \<open>Line 844.\<close>

definition compact_line :: "TaskRecord \<Rightarrow> nat \<Rightarrow> jsstring" where
  "compact_line task depth =
     indent_of depth @ js ''['' @ status_compact task @ js ''] '' @ content task
       @ js '' ['' @ show_int (id_of task) @ js '']'' @ nl"

text \<open>
  Lines 856 to 860. A string is truthy when it is present and not empty, a number when
  it is present and not 0.
\<close>

definition summary_full_line :: "TaskRecord \<Rightarrow> nat \<Rightarrow> jsstring" where
  "summary_full_line task depth =
     indent_of depth @ status_summary_full task @ js '' '' @ content task
       @ (case due task of None \<Rightarrow> [] | Some d \<Rightarrow> if d = [] then [] else js '' (due: '' @ d @ js '')'')
       @ (case priority task of None \<Rightarrow> [] | Some p \<Rightarrow> if p = 0 then [] else js '' !'' @ show_int p)
       @ (case tags_as_text task of None \<Rightarrow> [] | Some t \<Rightarrow> if t = [] then [] else js '' #'' @ t)
       @ js '' [ID: '' @ show_int (id_of task) @ js '']'' @ nl"

text \<open>Lines 863 to 867.\<close>

definition summary_note_lines :: "TaskRecord \<Rightarrow> nat \<Rightarrow> line list" where
  "summary_note_lines task depth =
     map (\<lambda>note. NoteLine (indent_of depth @ js ''  '' @ glyph_memo @ js '' '' @ comment note @ nl))
       (notes_of task)"

text \<open>Line 875.\<close>

definition summary_marker :: "TaskRecord \<Rightarrow> nat \<Rightarrow> jsstring" where
  "summary_marker task depth =
     indent_of depth @ js ''  ... ('' @ show_nat (length (subtasks task))
       @ js '' more subtasks, increase max_depth to see)'' @ nl"

text \<open>
  \<open>formatTask\<close> of the summary, lines 832 to 880. \<open>taskMap\<close>, \<open>includeClosed\<close>,
  \<open>compactMode\<close> and \<open>maxDepth\<close> are the variables it closes over; its third parameter
  \<open>prefix\<close> is passed along and never read, and is left out. \<open>depth\<close> starts at 0 and
  grows by one, so it is a \<open>nat\<close>; \<open>maxDepth\<close> comes from the request and may be
  negative.
\<close>

function formatTask_summary ::
  "(int \<rightharpoonup> TaskRecord) \<Rightarrow> bool \<Rightarrow> bool \<Rightarrow> int \<Rightarrow> int \<Rightarrow> nat \<Rightarrow> line list" where
  "formatTask_summary taskMap includeClosed compactMode maxDepth taskId depth =
     (case taskMap taskId of
        None \<Rightarrow> []
      | Some task \<Rightarrow>
          if \<not> includeClosed \<and> status task = 1 then []
          else if compactMode then
            TaskLine (id_of task) (compact_line task depth)
            # (if int depth < maxDepth \<and> subtasks task \<noteq> []
               then concat (map (\<lambda>subtaskId.
                      formatTask_summary taskMap includeClosed compactMode maxDepth subtaskId (Suc depth))
                    (subtasks task))
               else [])
          else
            TaskLine (id_of task) (summary_full_line task depth)
            # summary_note_lines task depth
            @ (if int depth < maxDepth \<and> subtasks task \<noteq> []
               then concat (map (\<lambda>subtaskId.
                      formatTask_summary taskMap includeClosed compactMode maxDepth subtaskId (Suc depth))
                    (subtasks task))
               else if subtasks task \<noteq> [] then [MarkerLine (summary_marker task depth)]
               else []))"
  by pat_completeness auto
termination
  by (relation "measure (\<lambda>(taskMap, includeClosed, compactMode, maxDepth, taskId, depth).
        nat (maxDepth - int depth))") auto

declare formatTask_summary.simps [simp del]

text \<open>
  The handler, lines 818 to 912. \<open>preview\<close>, \<open>include_closed\<close> and \<open>compact\<close> are
  \<open>args.x === true\<close>; \<open>max_depth\<close> is \<open>None\<close> when the request carries no number.
\<close>

definition summary_maxDepth :: "bool \<Rightarrow> int option \<Rightarrow> int" where
  "summary_maxDepth preview max_depth =
     (if preview then 1 else case max_depth of Some d \<Rightarrow> d | None \<Rightarrow> 99)"

definition summary_header :: "TaskRecord list \<Rightarrow> bool \<Rightarrow> bool \<Rightarrow> int \<Rightarrow> bool \<Rightarrow> line list" where
  "summary_header ts isPreview compactMode maxDepth includeClosed =
     [TextLine (glyph_clipboard @ js '' Checklist Summary ('' @ show_nat (length (topLevelTasks_of ts))
        @ js '' top-level tasks, '' @ show_nat (length ts) @ js '' total)'' @ nl)]
     @ (if isPreview then [TextLine (glyph_zap @ js '' PREVIEW MODE: Showing only top-level tasks'' @ nl)]
        else if compactMode then [TextLine (js ''COMPACT MODE: Showing only task titles and IDs'' @ nl)]
        else [])
     @ [TextLine (js ''Showing ''
          @ (if maxDepth = 99 then js ''all levels'' else js ''up to '' @ show_int maxDepth @ js '' levels'')
          @ js '', '' @ (if includeClosed then js ''including'' else js ''excluding'')
          @ js '' closed tasks'' @ nl @ nl)]"

definition summary_footer :: "bool \<Rightarrow> bool \<Rightarrow> line list" where
  "summary_footer isPreview compactMode =
     (if isPreview then
        [TextLine (nl @ glyph_bulb
           @ js '' TIP: Use checkvist_get_task_tree with a specific task ID to explore subtasks'' @ nl),
         TextLine (js ''     Or use max_depth=2 to see one more level'' @ nl)]
      else if compactMode then
        [TextLine (nl @ glyph_bulb
           @ js '' Use checkvist_get_task_tree with a specific task ID to see full details'' @ nl)]
      else [])"

text \<open>Lines 893 to 895: \<open>formatTask(task.id, 0, '')\<close> for each top-level task, in order.\<close>

definition summary_body :: "TaskRecord list \<Rightarrow> bool \<Rightarrow> bool \<Rightarrow> int \<Rightarrow> line list" where
  "summary_body ts includeClosed compactMode maxDepth =
     concat (map (\<lambda>task. formatTask_summary (taskMap_of ts) includeClosed compactMode maxDepth (id_of task) 0)
       (topLevelTasks_of ts))"

definition checkvist_get_tasks_summary ::
  "TaskRecord list \<Rightarrow> bool \<Rightarrow> int option \<Rightarrow> bool \<Rightarrow> bool \<Rightarrow> line list" where
  "checkvist_get_tasks_summary ts preview max_depth include_closed compact =
     (let isPreview = preview;
          maxDepth = summary_maxDepth preview max_depth;
          includeClosed = include_closed;
          compactMode = (if isPreview then True else compact)
      in summary_header ts isPreview compactMode maxDepth includeClosed
         @ summary_body ts includeClosed compactMode maxDepth
         @ summary_footer isPreview compactMode)"

section \<open>checkvist_get_task_tree\<close>

text \<open>The status mark of the full branches of the task tree and of the pages (lines 974, 1152).\<close>

definition status_full :: "TaskRecord \<Rightarrow> jsstring" where
  "status_full task =
     (if status task = 1 then js ''['' @ glyph_closed @ js '']''
      else if status task = 2 then js ''['' @ glyph_invalidated @ js '']'' else js ''[ ]'')"

text \<open>Lines 975 to 977 and 1153 to 1155: due date, priority and tags.\<close>

definition full_meta :: "TaskRecord \<Rightarrow> jsstring" where
  "full_meta task =
     (case due task of None \<Rightarrow> [] | Some d \<Rightarrow> if d = [] then [] else js '' '' @ glyph_due @ js '' '' @ d)
     @ (case priority task of None \<Rightarrow> []
        | Some p \<Rightarrow> if p = 0 then [] else js '' '' @ glyph_priority @ js '' P'' @ show_int p)
     @ (case tags_as_text task of None \<Rightarrow> []
        | Some t \<Rightarrow> if t = [] then [] else js '' '' @ glyph_tags @ js '' '' @ t)"

text \<open>Lines 962 and 963 (\<open>n\<close> is 50), 1130 and 1131 (\<open>n\<close> is 40).\<close>

definition id_title_line :: "nat \<Rightarrow> TaskRecord \<Rightarrow> nat \<Rightarrow> jsstring" where
  "id_title_line n task depth =
     indent_of depth @ show_int (id_of task) @ js '': '' @ truncate_to n (content task) @ nl"

text \<open>Line 979.\<close>

definition tree_full_line :: "TaskRecord \<Rightarrow> nat \<Rightarrow> jsstring" where
  "tree_full_line task depth =
     indent_of depth @ status_full task @ js '' '' @ content task @ full_meta task
       @ js '' ['' @ show_int (id_of task) @ js '']'' @ nl"

text \<open>Lines 982 to 991: at most two notes, each cut at 150 code units, then how many are left.\<close>

definition tree_note_lines :: "bool \<Rightarrow> TaskRecord \<Rightarrow> nat \<Rightarrow> line list" where
  "tree_note_lines withNotes task depth =
     (if withNotes \<and> notes_of task \<noteq> [] then
        map (\<lambda>note. NoteLine (indent_of depth @ js ''  '' @ glyph_note_tree @ js '' ''
                        @ truncate_to 150 (comment note) @ nl))
          (take 2 (notes_of task))
        @ (if length (notes_of task) > 2
           then [NoteLine (indent_of depth @ js ''  ... ('' @ show_nat (length (notes_of task) - 2)
                            @ js '' more notes)'' @ nl)]
           else [])
      else [])"

text \<open>Lines 970 and 999.\<close>

definition tree_compact_marker :: "int \<Rightarrow> TaskRecord \<Rightarrow> nat \<Rightarrow> jsstring" where
  "tree_compact_marker maxDepth task depth =
     indent_of depth @ js ''  ... ('' @ show_nat (length (subtasks task))
       @ js '' more, use max_depth='' @ show_int (maxDepth + 1) @ js '')'' @ nl"

definition tree_full_marker :: "int \<Rightarrow> TaskRecord \<Rightarrow> nat \<Rightarrow> jsstring" where
  "tree_full_marker maxDepth task depth =
     indent_of depth @ js ''  ... ('' @ show_nat (length (subtasks task))
       @ js '' more subtasks, use max_depth='' @ show_int (maxDepth + 1) @ js '')'' @ nl"

text \<open>\<open>formatTask\<close> of the task tree, lines 952 to 1004.\<close>

function formatTask_tree ::
  "(int \<rightharpoonup> TaskRecord) \<Rightarrow> bool \<Rightarrow> bool \<Rightarrow> bool \<Rightarrow> int \<Rightarrow> int \<Rightarrow> nat \<Rightarrow> line list" where
  "formatTask_tree taskMap withNotes includeClosed compactMode maxDepth taskId depth =
     (case taskMap taskId of
        None \<Rightarrow> []
      | Some task \<Rightarrow>
          if \<not> includeClosed \<and> status task = 1 then []
          else if compactMode then
            TaskLine (id_of task) (id_title_line 50 task depth)
            # (if int depth < maxDepth \<and> subtasks task \<noteq> []
               then concat (map (\<lambda>subtaskId.
                      formatTask_tree taskMap withNotes includeClosed compactMode maxDepth subtaskId (Suc depth))
                    (subtasks task))
               else if int depth \<ge> maxDepth \<and> subtasks task \<noteq> []
               then [MarkerLine (tree_compact_marker maxDepth task depth)]
               else [])
          else
            TaskLine (id_of task) (tree_full_line task depth)
            # tree_note_lines withNotes task depth
            @ (if int depth < maxDepth \<and> subtasks task \<noteq> []
               then concat (map (\<lambda>subtaskId.
                      formatTask_tree taskMap withNotes includeClosed compactMode maxDepth subtaskId (Suc depth))
                    (subtasks task))
               else if int depth \<ge> maxDepth \<and> subtasks task \<noteq> []
               then [MarkerLine (tree_full_marker maxDepth task depth)]
               else []))"
  by pat_completeness auto
termination
  by (relation "measure (\<lambda>(taskMap, withNotes, includeClosed, compactMode, maxDepth, taskId, depth).
        nat (maxDepth - int depth))") auto

declare formatTask_tree.simps [simp del]

text \<open>
  What is thrown. The handlers throw two errors of their own, each with its message: the
  task tree when the root is not in the map (line 948), the pages when the page number
  is out of range (line 1114). \<open>RangeError\<close> is the engine's: it is thrown when a call
  finds no room left on the call stack.
\<close>

datatype error =
    is_TaskNotFound: TaskNotFound jsstring
  | is_InvalidPage: InvalidPage jsstring
  | is_RangeError: RangeError

text \<open>
  The handler, lines 932 to 1018. \<open>checklist_id\<close> is only printed in the message.
\<close>

definition checkvist_get_task_tree ::
  "TaskRecord list \<Rightarrow> int \<Rightarrow> int \<Rightarrow> bool \<Rightarrow> bool \<Rightarrow> int option \<Rightarrow> bool \<Rightarrow> error + line list" where
  "checkvist_get_task_tree allTasks checklist_id task_id with_notes include_closed max_depth compact =
     (let withNotes = with_notes;
          includeClosed = include_closed;
          maxDepth = (case max_depth of Some d \<Rightarrow> d | None \<Rightarrow> 3);
          compactMode = compact;
          taskMap = taskMap_of allTasks
      in case taskMap task_id of
           None \<Rightarrow> Inl (TaskNotFound (js ''Task '' @ show_int task_id @ js '' not found in checklist ''
                          @ show_int checklist_id))
         | Some rootTask \<Rightarrow>
             Inr ([TextLine (glyph_tree @ js '' Task: '' @ content rootTask @ nl),
                   TextLine (js ''Depth: '' @ show_int maxDepth @ js '', ''
                     @ (if compactMode then js ''Compact'' else js ''Full'') @ js '' mode'' @ nl @ nl)]
                  @ formatTask_tree taskMap withNotes includeClosed compactMode maxDepth task_id 0))"

section \<open>checkvist_get_checklist_stats\<close>

text \<open>
  \<open>getDepth\<close>, lines 1032 to 1039, calls itself for every child and keeps no record of
  the ids it has been at, so the recursion need not end: its result is an option, and
  \<open>None\<close> is the recursion that never reaches a number, whatever the room on the stack.
  This is the recursion as written, with no limit on the nesting of the calls;
  \<open>getDepth_frames\<close> below is the call on a stack of a given size. \<open>array_map\<close> is
  \<open>Array.map\<close> with such a callback: it calls it on the elements from left to right.
\<close>

primrec array_map :: "('a \<Rightarrow> 'b option) \<Rightarrow> 'a list \<Rightarrow> 'b list option" where
  "array_map f [] = Some []"
| "array_map f (x # xs) =
     Option.bind (f x) (\<lambda>y. Option.bind (array_map f xs) (\<lambda>ys. Some (y # ys)))"

lemma array_map_mono [partial_function_mono]:
  assumes "\<And>x. mono_option (\<lambda>f. F f x)"
  shows "mono_option (\<lambda>f. array_map (F f) xs)"
proof (induction xs)
  case Nil
  show ?case by (simp add: option.const_mono)
next
  case (Cons x xs)
  show ?case
    unfolding array_map.simps
    by (intro partial_function_mono assms Cons.IH)
qed

text \<open>
  \<open>Math.max(...xs)\<close> on depths, which are never negative: the greatest of them, and 0
  for \<open>Math.max(...depths, 0)\<close> on no depths at all. \<open>getDepth\<close> passes a list that is
  not empty.
\<close>

definition Math_max :: "nat list \<Rightarrow> nat" where
  "Math_max xs = foldr max xs 0"

partial_function (option) getDepth :: "(int \<rightharpoonup> TaskRecord) \<Rightarrow> int \<Rightarrow> nat \<Rightarrow> nat option" where
  "getDepth taskMap taskId currentDepth =
     (case taskMap taskId of
        None \<Rightarrow> Some currentDepth
      | Some task \<Rightarrow>
          if subtasks task = [] then Some currentDepth
          else Option.bind
                 (array_map (\<lambda>childId. getDepth taskMap childId (Suc currentDepth)) (subtasks task))
                 (\<lambda>childDepths. Some (Math_max childDepths)))"

declare getDepth.simps [code]

text \<open>
  \<open>(num / den).toFixed(1)\<close> for two counts. Dividing by 0 does not throw: 0 / 0 is NaN,
  which prints as \<open>NaN\<close>, and anything else over 0 is Infinity; on this branch the
  model is exact. With a denominator that is not 0 the model rounds the exact quotient to
  one decimal, halves upwards, while the source rounds the double that its floating-point
  division (and, for the percentage, multiplication by 100) gives: the two can differ in
  the last digit when the quotient lies at or next to a half (3 / 20 prints \<open>0.1\<close> in the
  source and \<open>0.2\<close> here). Nothing below depends on that branch.
\<close>

definition toFixed1 :: "nat \<Rightarrow> nat \<Rightarrow> jsstring" where
  "toFixed1 num den =
     (if den = 0 then (if num = 0 then js ''NaN'' else js ''Infinity'')
      else let tenths = (20 * num + den) div (2 * den)
           in show_nat (tenths div 10) @ js ''.'' @ show_nat (tenths mod 10))"

text \<open>What the handler computes before it prints, lines 1024 to 1043.\<close>

record Stats =
  total :: nat
  topLevelCount :: nat
  closedCount :: nat
  notedCount :: nat
  maxDepth_of :: nat
  avgDepth :: jsstring

definition analyze :: "TaskRecord list \<Rightarrow> Stats option" where
  "analyze allTasks =
     (let topLevelTasks = topLevelTasks_of allTasks;
          closedTasks = filter (\<lambda>task. status task = 1) allTasks;
          tasksWithNotes = filter (\<lambda>task. notes_of task \<noteq> []) allTasks;
          taskMap = taskMap_of allTasks
      in case array_map (\<lambda>task. getDepth taskMap (id_of task) 0) topLevelTasks of
           None \<Rightarrow> None
         | Some depths \<Rightarrow>
             Some \<lparr> total = length allTasks,
                    topLevelCount = length topLevelTasks,
                    closedCount = length closedTasks,
                    notedCount = length tasksWithNotes,
                    maxDepth_of = Math_max depths,
                    avgDepth = (if length depths > 0 then toFixed1 (sum_list depths) (length depths)
                                else js ''0'') \<rparr>)"

text \<open>
  Line 1049. The source computes \<open>(closed / total) * 100\<close> in doubles; the model takes
  \<open>closed * 100\<close> over \<open>total\<close>, which is the same NaN when the total is 0 and is exact
  arithmetic otherwise (see \<open>toFixed1\<close>).
\<close>

definition closed_line :: "Stats \<Rightarrow> jsstring" where
  "closed_line st =
     glyph_closed @ js '' Closed tasks: '' @ show_nat (closedCount st) @ js '' (''
       @ toFixed1 (closedCount st * 100) (total st) @ js ''%)'' @ nl"

text \<open>Lines 1045 to 1062.\<close>

definition stats_lines :: "int \<Rightarrow> Stats \<Rightarrow> line list" where
  "stats_lines checklist_id st =
     [TextLine (glyph_chart @ js '' Checklist Statistics'' @ nl),
      TextLine (js ''Checklist ID: '' @ show_int checklist_id @ nl @ nl),
      TextLine (glyph_memo @ js '' Total tasks: '' @ show_nat (total st) @ nl),
      TextLine (glyph_pin @ js '' Top-level tasks: '' @ show_nat (topLevelCount st) @ nl),
      TextLine (closed_line st),
      TextLine (glyph_note_tree @ js '' Tasks with notes: '' @ show_nat (notedCount st) @ nl @ nl),
      TextLine (glyph_memo @ js '' Depth statistics:'' @ nl),
      TextLine (js ''   Maximum depth: '' @ show_nat (maxDepth_of st) @ js '' levels'' @ nl),
      TextLine (js ''   Average depth: '' @ avgDepth st @ js '' levels'' @ nl @ nl),
      TextLine (glyph_bulb @ js '' Recommendation:'' @ nl)]
     @ (if total st < 50 then
          [TextLine (js ''   Small checklist - use checkvist_get_tasks_summary with default settings'' @ nl)]
        else if total st < 200 then
          [TextLine (js ''   Medium checklist - use checkvist_get_tasks_summary with compact=true'' @ nl)]
        else
          [TextLine (js ''   Large checklist - use checkvist_get_tasks_paginated with max_depth=3'' @ nl),
           TextLine (js ''   This will show '' @ show_nat (topLevelCount st)
             @ js '' pages (1 top-level task per page)'' @ nl)])"

definition checkvist_get_checklist_stats :: "TaskRecord list \<Rightarrow> int \<Rightarrow> line list option" where
  "checkvist_get_checklist_stats allTasks checklist_id =
     map_option (stats_lines checklist_id) (analyze allTasks)"

section \<open>checkvist_get_tasks_paginated\<close>

text \<open>Lines 1148 and 1166.\<close>

definition page_marker :: "TaskRecord \<Rightarrow> nat \<Rightarrow> jsstring" where
  "page_marker task depth =
     indent_of depth @ js ''  ... ('' @ show_nat (length (subtasks task)) @ js '' more)'' @ nl"

text \<open>Line 1157.\<close>

definition page_full_line :: "TaskRecord \<Rightarrow> nat \<Rightarrow> jsstring" where
  "page_full_line task depth =
     indent_of depth @ status_full task @ js '' '' @ content task @ full_meta task
       @ js '' [ID: '' @ show_int (id_of task) @ js '']'' @ nl"

text \<open>
  \<open>formatTask\<close> of the pages, lines 1122 to 1170. It reads no \<open>includeClosed\<close>: the
  handler has no such variable.
\<close>

function formatTask_paginated ::
  "(int \<rightharpoonup> TaskRecord) \<Rightarrow> bool \<Rightarrow> bool \<Rightarrow> int \<Rightarrow> int \<Rightarrow> nat \<Rightarrow> line list" where
  "formatTask_paginated taskMap ultraCompact compactMode maxDepth taskId depth =
     (case taskMap taskId of
        None \<Rightarrow> []
      | Some task \<Rightarrow>
          if ultraCompact then
            TaskLine (id_of task) (id_title_line 40 task depth)
            # (if int depth < maxDepth \<and> subtasks task \<noteq> []
               then concat (map (\<lambda>subtaskId.
                      formatTask_paginated taskMap ultraCompact compactMode maxDepth subtaskId (Suc depth))
                    (subtasks task))
               else [])
          else if compactMode then
            TaskLine (id_of task) (compact_line task depth)
            # (if int depth < maxDepth \<and> subtasks task \<noteq> []
               then concat (map (\<lambda>subtaskId.
                      formatTask_paginated taskMap ultraCompact compactMode maxDepth subtaskId (Suc depth))
                    (subtasks task))
               else if int depth \<ge> maxDepth \<and> subtasks task \<noteq> []
               then [MarkerLine (page_marker task depth)]
               else [])
          else
            TaskLine (id_of task) (page_full_line task depth)
            # (if int depth < maxDepth \<and> subtasks task \<noteq> []
               then concat (map (\<lambda>subtaskId.
                      formatTask_paginated taskMap ultraCompact compactMode maxDepth subtaskId (Suc depth))
                    (subtasks task))
               else if int depth \<ge> maxDepth \<and> subtasks task \<noteq> []
               then [MarkerLine (page_marker task depth)]
               else []))"
  by pat_completeness auto
termination
  by (relation "measure (\<lambda>(taskMap, ultraCompact, compactMode, maxDepth, taskId, depth).
        nat (maxDepth - int depth))") auto

declare formatTask_paginated.simps [simp del]

text \<open>
  The handler, lines 1095 to 1206. \<open>compact\<close> is the request's field, \<open>None\<close> when it
  is missing (\<open>args.compact !== false\<close>); \<open>page\<close> is an integer.
\<close>

definition pageSize :: nat where
  "pageSize = 1"

text \<open>\<open>Math.ceil(topLevelTasks.length / pageSize)\<close>\<close>

definition totalPages_of :: "TaskRecord list \<Rightarrow> nat" where
  "totalPages_of allTasks = (length (topLevelTasks_of allTasks) + pageSize - 1) div pageSize"

definition pageTasks_of :: "TaskRecord list \<Rightarrow> int \<Rightarrow> TaskRecord list" where
  "pageTasks_of allTasks pageNum =
     (let topLevelTasks = topLevelTasks_of allTasks;
          startIdx = nat (pageNum - 1) * pageSize;
          endIdx = min (startIdx + pageSize) (length topLevelTasks)
      in drop startIdx (take endIdx topLevelTasks))"

definition page_header :: "TaskRecord list \<Rightarrow> int \<Rightarrow> bool \<Rightarrow> bool \<Rightarrow> int \<Rightarrow> line list" where
  "page_header allTasks pageNum ultraCompact compactMode maxDepth =
     [TextLine (glyph_page @ js '' Page '' @ show_int pageNum @ js ''/''
        @ show_nat (totalPages_of allTasks) @ nl),
      TextLine (js ''Total: '' @ show_nat (length (topLevelTasks_of allTasks)) @ js '' top-level, ''
        @ show_nat (length allTasks) @ js '' overall'' @ nl)]
     @ (if ultraCompact then [TextLine (js ''Mode: ULTRA (ID + 40 chars), '')]
        else if compactMode then [TextLine (js ''Mode: Compact, '')]
        else [])
     @ [TextLine (js ''Depth: '' @ show_int maxDepth @ nl @ nl)]"

definition page_footer :: "TaskRecord list \<Rightarrow> int \<Rightarrow> int \<Rightarrow> line list" where
  "page_footer allTasks pageNum maxDepth =
     (if pageNum < int (totalPages_of allTasks) then
        [TextLine (nl @ glyph_pin @ js '' More pages available. Use page='' @ show_int (pageNum + 1)
           @ js '' to continue reading.'' @ nl)]
        @ (if maxDepth < 99
           then [TextLine (js ''   (If tasks are cut off, you can increase max_depth to see more subtasks)'' @ nl)]
           else [])
      else
        [TextLine (nl @ glyph_done @ js '' End of checklist. You have read all ''
           @ show_nat (length (topLevelTasks_of allTasks)) @ js '' top-level tasks.'' @ nl)]
        @ (if maxDepth < 99
           then [TextLine (js ''   (Some deep subtasks may have been hidden due to max_depth=''
                   @ show_int maxDepth @ js '')'' @ nl)]
           else []))"

text \<open>Lines 1181 to 1184: each task of the page, then an empty line.\<close>

definition page_body :: "TaskRecord list \<Rightarrow> int \<Rightarrow> bool \<Rightarrow> bool \<Rightarrow> int \<Rightarrow> line list" where
  "page_body allTasks pageNum ultraCompact compactMode maxDepth =
     concat (map (\<lambda>task.
         formatTask_paginated (taskMap_of allTasks) ultraCompact compactMode maxDepth (id_of task) 0
         @ [TextLine nl])
       (pageTasks_of allTasks pageNum))"

definition checkvist_get_tasks_paginated ::
  "TaskRecord list \<Rightarrow> int \<Rightarrow> bool option \<Rightarrow> int option \<Rightarrow> bool \<Rightarrow> error + line list" where
  "checkvist_get_tasks_paginated allTasks page compact max_depth ultra_compact =
     (let compactMode = (compact \<noteq> Some False);
          pageNum = page;
          maxDepth = (case max_depth of Some d \<Rightarrow> d | None \<Rightarrow> 2);
          ultraCompact = ultra_compact;
          totalPages = totalPages_of allTasks
      in if pageNum < 1 \<or> pageNum > int totalPages then
           Inl (InvalidPage (js ''Invalid page '' @ show_int pageNum @ js ''. Valid pages: 1-''
                  @ show_nat totalPages))
         else
           Inr (page_header allTasks pageNum ultraCompact compactMode maxDepth
                @ page_body allTasks pageNum ultraCompact compactMode maxDepth
                @ page_footer allTasks pageNum maxDepth))"

section \<open>The call stack\<close>

text \<open>
  The functions above are the recursions as the source writes them, with no limit on
  how deep the calls nest. An engine has such a limit and throws \<open>RangeError\<close> from the
  call that exceeds it. The functions of this section are the same recursions on an engine
  whose stack has room for \<open>frames\<close> nested calls of the function: a call that finds no
  room throws, and an error thrown by the call for a child ends the loop over the
  children and the callers. (The true limit depends on the engine and on what else is on
  the stack, so it is a parameter.)
\<close>



text \<open>
  \<open>result += ...\<close>: the lines so far, then what the rest of the body appends, unless it
  throws. \<open>forEach_result\<close> is \<open>task.tasks.forEach\<close> with a callback that appends the text
  of one child and may throw.
\<close>

definition after_lines :: "line list \<Rightarrow> error + line list \<Rightarrow> error + line list" where
  "after_lines ls r = (case r of Inl e \<Rightarrow> Inl e | Inr rest \<Rightarrow> Inr (ls @ rest))"





section \<open>Example collections and reading results\<close>

text \<open>A record with a one-letter title and no due date, priority, tags or notes.\<close>

definition plain_task :: "int \<Rightarrow> int \<Rightarrow> int \<Rightarrow> int list option \<Rightarrow> TaskRecord" where
  "plain_task i p s cs = \<lparr>id_of = i, parent_id = p, content = js ''t'', status = s, tasks = cs,
     due = None, priority = None, tags_as_text = None, notes_list = None\<rparr>"

text \<open>
  Two top-level tasks 1 and 2; task 1 has the open child 11 and the closed child 12,
  which has the open child 121.
\<close>

definition scenario :: "TaskRecord list" where
  "scenario = [plain_task 1 0 0 (Some [11, 12]), plain_task 11 1 0 None,
     plain_task 12 1 1 (Some [121]), plain_task 121 12 0 None, plain_task 2 0 0 (Some [])]"


text \<open>The ids of the task lines of a handler that may throw.\<close>

fun result_ids :: "error + line list \<Rightarrow> int list" where
  "result_ids (Inl e) = []"
| "result_ids (Inr ls) = rendered_ids ls"

section \<open>The order of the visit\<close>

text \<open>
  The three \<open>formatTask\<close> functions walk the records in the same way and differ in the
  lines they write. \<open>visited\<close> is that walk alone: the ids of the task lines, in the
  order they are written. It is used to state and prove the claims, and is tied to each
  function by a lemma below.
\<close>

function visited :: "(int \<rightharpoonup> TaskRecord) \<Rightarrow> bool \<Rightarrow> int \<Rightarrow> int \<Rightarrow> nat \<Rightarrow> int list" where
  "visited taskMap includeClosed maxDepth taskId depth =
     (case taskMap taskId of
        None \<Rightarrow> []
      | Some task \<Rightarrow>
          if \<not> includeClosed \<and> status task = 1 then []
          else id_of task
               # (if int depth < maxDepth
                  then concat (map (\<lambda>c. visited taskMap includeClosed maxDepth c (Suc depth)) (subtasks task))
                  else []))"
  by pat_completeness auto
termination
  by (relation "measure (\<lambda>(taskMap, includeClosed, maxDepth, taskId, depth). nat (maxDepth - int depth))") auto

declare visited.simps [simp del]

text \<open>
  \<open>open_chain taskMap r k\<close>: from \<open>r\<close> the id \<open>k\<close> is reached along child references
  through records that are in the map and not closed, \<open>r\<close> and \<open>k\<close> included.
\<close>

inductive open_chain :: "(int \<rightharpoonup> TaskRecord) \<Rightarrow> int \<Rightarrow> int \<Rightarrow> bool" for taskMap where
  here: "taskMap r = Some task \<Longrightarrow> status task \<noteq> 1 \<Longrightarrow> open_chain taskMap r r"
| down: "taskMap r = Some task \<Longrightarrow> status task \<noteq> 1 \<Longrightarrow> c \<in> set (subtasks task)
          \<Longrightarrow> open_chain taskMap c k \<Longrightarrow> open_chain taskMap r k"

code_pred open_chain .

text \<open>
  \<open>chain_within taskMap n r k\<close>: from \<open>r\<close> the id \<open>k\<close> is reached along at most \<open>n\<close>
  child references through records that are in the map, whatever their status.
\<close>

inductive chain_within :: "(int \<rightharpoonup> TaskRecord) \<Rightarrow> nat \<Rightarrow> int \<Rightarrow> int \<Rightarrow> bool" for taskMap where
  stay: "taskMap r = Some task \<Longrightarrow> chain_within taskMap n r r"
| step: "taskMap r = Some task \<Longrightarrow> c \<in> set (subtasks task)
          \<Longrightarrow> chain_within taskMap n c k \<Longrightarrow> chain_within taskMap (Suc n) r k"

code_pred chain_within .



text \<open>Every record of the map is stored under its own id.\<close>

definition keys_ok :: "(int \<rightharpoonup> TaskRecord) \<Rightarrow> bool" where
  "keys_ok taskMap = (\<forall>k t. taskMap k = Some t \<longrightarrow> id_of t = k)"

section \<open>Forests\<close>

text \<open>
  A forest of tasks and the collection that lists it. \<open>records_of\<close> lists the records
  of a tree, the root first and then each subtree in turn. \<open>encodes is_top t\<close>: in the
  records of \<open>t\<close> the \<open>tasks\<close> field of every record lists the roots of its subtrees
  in their order, and \<open>parent_id\<close> is 0 at the root of a top-level tree and nowhere
  else. \<open>height_of\<close> is the number of levels below the root.
\<close>

datatype task_tree = Node TaskRecord "task_tree list"

fun root_record :: "task_tree \<Rightarrow> TaskRecord" where
  "root_record (Node r cs) = r"

fun records_of :: "task_tree \<Rightarrow> TaskRecord list" where
  "records_of (Node r cs) = r # concat (map records_of cs)"

fun height_of :: "task_tree \<Rightarrow> nat" where
  "height_of (Node r cs) = (if cs = [] then 0 else Suc (Math_max (map height_of cs)))"

fun encodes :: "bool \<Rightarrow> task_tree \<Rightarrow> bool" where
  "encodes is_top (Node r cs) =
     ((parent_id r = 0) = is_top
      \<and> subtasks r = map (\<lambda>c. id_of (root_record c)) cs
      \<and> list_all (encodes False) cs)"

text \<open>The scenario as a forest.\<close>

definition plain_forest :: "task_tree list" where
  "plain_forest =
     [Node (plain_task 1 0 0 (Some [11, 12]))
        [Node (plain_task 11 1 0 None) [],
         Node (plain_task 12 1 1 (Some [121])) [Node (plain_task 121 12 0 None) []]],
      Node (plain_task 2 0 0 (Some [])) []]"

section \<open>Evaluation lemmas\<close>

lemma js_simps: "js [] = []" "js (c # cs) = of_char c # js cs"
  by (simp_all add: js_def)

lemma totalPages_of_eq: "totalPages_of allTasks = length (topLevelTasks_of allTasks)"
  by (simp add: totalPages_of_def pageSize_def)

section \<open>The task lines of each renderer\<close>

lemma rendered_ids_append [simp]: "rendered_ids (xs @ ys) = rendered_ids xs @ rendered_ids ys"
  by (induction xs rule: rendered_ids.induct) simp_all

lemma rendered_ids_concat: "rendered_ids (concat xss) = concat (map rendered_ids xss)"
  by (induction xss) simp_all

lemma rendered_ids_map_NoteLine [simp]: "rendered_ids (map (\<lambda>n. NoteLine (f n)) ns) = []"
  by (induction ns) simp_all

lemma rendered_ids_summary_notes [simp]: "rendered_ids (summary_note_lines task depth) = []"
  unfolding summary_note_lines_def by simp

lemma rendered_ids_tree_notes [simp]: "rendered_ids (tree_note_lines w task depth) = []"
  unfolding tree_note_lines_def by simp

lemma summary_visited:
  "rendered_ids (formatTask_summary tm ic cm md k d) = visited tm ic md k d"
proof (induction tm ic md k d rule: visited.induct)
  case (1 tm ic md k d)
  show ?case
  proof (cases "tm k")
    case None
    then show ?thesis by (simp add: formatTask_summary.simps visited.simps)
  next
    case (Some task)
    show ?thesis
    proof (cases "\<not> ic \<and> status task = 1")
      case True
      with Some show ?thesis by (simp add: formatTask_summary.simps visited.simps)
    next
      case False
      have ih: "int d < md \<Longrightarrow> c \<in> set (subtasks task) \<Longrightarrow>
          rendered_ids (formatTask_summary tm ic cm md c (Suc d)) = visited tm ic md c (Suc d)" for c
        using 1 Some False by blast
      show ?thesis
        using Some False ih
        by (subst formatTask_summary.simps, subst visited.simps)
           (auto simp: rendered_ids_concat o_def cong: map_cong)
    qed
  qed
qed

lemma tree_visited:
  "rendered_ids (formatTask_tree tm wn ic cm md k d) = visited tm ic md k d"
proof (induction tm ic md k d rule: visited.induct)
  case (1 tm ic md k d)
  show ?case
  proof (cases "tm k")
    case None
    then show ?thesis by (simp add: formatTask_tree.simps visited.simps)
  next
    case (Some task)
    show ?thesis
    proof (cases "\<not> ic \<and> status task = 1")
      case True
      with Some show ?thesis by (simp add: formatTask_tree.simps visited.simps)
    next
      case False
      have ih: "int d < md \<Longrightarrow> c \<in> set (subtasks task) \<Longrightarrow>
          rendered_ids (formatTask_tree tm wn ic cm md c (Suc d)) = visited tm ic md c (Suc d)" for c
        using 1 Some False by blast
      show ?thesis
        using Some False ih
        by (subst formatTask_tree.simps, subst visited.simps)
           (auto simp: rendered_ids_concat o_def cong: map_cong)
    qed
  qed
qed

lemma paginated_visited:
  "rendered_ids (formatTask_paginated tm uc cm md k d) = visited tm True md k d"
proof (induction tm True md k d rule: visited.induct)
  case (1 tm md k d)
  show ?case
  proof (cases "tm k")
    case None
    then show ?thesis by (simp add: formatTask_paginated.simps visited.simps)
  next
    case (Some task)
    have ih: "int d < md \<Longrightarrow> c \<in> set (subtasks task) \<Longrightarrow>
        rendered_ids (formatTask_paginated tm uc cm md c (Suc d)) = visited tm True md c (Suc d)" for c
      using 1 Some by blast
    show ?thesis
      using Some ih
      by (subst formatTask_paginated.simps, subst visited.simps)
         (auto simp: rendered_ids_concat o_def cong: map_cong)
  qed
qed

lemma rendered_ids_TextLines [simp]:
  "rendered_ids (summary_header ts p c m i) = []"
  "rendered_ids (summary_footer p c) = []"
  "rendered_ids (page_header ts n u c m) = []"
  "rendered_ids (page_footer ts n m) = []"
  by (simp_all add: summary_header_def summary_footer_def page_header_def page_footer_def)

lemma summary_ids:
  "rendered_ids (checkvist_get_tasks_summary ts False (Some md) ic cm)
     = concat (map (\<lambda>task. visited (taskMap_of ts) ic md (id_of task) 0) (topLevelTasks_of ts))"
  by (simp add: checkvist_get_tasks_summary_def summary_maxDepth_def summary_body_def
      rendered_ids_concat o_def summary_visited)

lemma drop_take_nth: "i < length xs \<Longrightarrow> drop i (take (Suc i) xs) = [xs ! i]"
  by (induction xs arbitrary: i) (auto simp: less_Suc_eq_0_disj)

lemma pageTasks_of_valid:
  assumes "1 \<le> p" "p \<le> int (totalPages_of ts)"
  shows "pageTasks_of ts p = [topLevelTasks_of ts ! nat (p - 1)]"
proof -
  have lt: "nat (p - 1) < length (topLevelTasks_of ts)"
    using assms by (simp add: totalPages_of_eq)
  then have "min (nat (p - 1) + 1) (length (topLevelTasks_of ts)) = Suc (nat (p - 1))"
    by simp
  then show ?thesis
    using drop_take_nth [OF lt] by (simp add: pageTasks_of_def pageSize_def Let_def)
qed

lemma page_ids:
  assumes "1 \<le> p" "p \<le> int (totalPages_of ts)"
  shows "result_ids (checkvist_get_tasks_paginated ts p compact (Some md) uc)
     = visited (taskMap_of ts) True md (id_of (topLevelTasks_of ts ! nat (p - 1))) 0"
  using assms
  by (simp add: checkvist_get_tasks_paginated_def Let_def page_body_def pageTasks_of_valid
      paginated_visited)

lemma map_pages: "map (\<lambda>p. f (xs ! nat (int p - 1))) [1..<Suc (length xs)] = map f xs"
proof -
  have "[1..<Suc (length xs)] = map Suc [0..<length xs]"
    by (simp add: map_Suc_upt)
  then have "map (\<lambda>p. f (xs ! nat (int p - 1))) [1..<Suc (length xs)]
      = map (\<lambda>i. f (xs ! i)) [0..<length xs]"
    by (simp add: o_def)
  also have "\<dots> = map f (map (\<lambda>i. xs ! i) [0..<length xs])"
    by (simp add: o_def)
  also have "\<dots> = map f xs"
    by (simp add: map_nth)
  finally show ?thesis .
qed

section \<open>The map of the records\<close>

lemma taskMap_of_snoc: "taskMap_of (ts @ [t]) = (taskMap_of ts)(id_of t \<mapsto> t)"
  by (simp add: taskMap_of_def)

lemma taskMap_of_Nil: "taskMap_of [] = Map.empty"
  by (simp add: taskMap_of_def)

lemma taskMap_of_Some: "taskMap_of ts k = Some t \<Longrightarrow> id_of t = k \<and> t \<in> set ts"
proof (induction ts arbitrary: t rule: rev_induct)
  case Nil
  then show ?case by (simp add: taskMap_of_Nil)
next
  case (snoc x xs)
  then show ?case by (cases "id_of x = k") (simp_all add: taskMap_of_snoc)
qed

lemma keys_ok_taskMap_of: "keys_ok (taskMap_of ts)"
  by (auto simp: keys_ok_def dest: taskMap_of_Some)

section \<open>What the walk reaches\<close>

lemma visited_None: "tm r = None \<Longrightarrow> visited tm ic md r d = []"
  by (simp add: visited.simps [of tm ic md r d])

lemma visited_closed: "tm r = Some task \<Longrightarrow> status task = 1 \<Longrightarrow> visited tm False md r d = []"
  by (simp add: visited.simps [of tm False md r d])

lemma visited_Some:
  "tm r = Some task \<Longrightarrow> ic \<or> status task \<noteq> 1 \<Longrightarrow>
   visited tm ic md r d
     = id_of task # (if int d < md
                     then concat (map (\<lambda>c. visited tm ic md c (Suc d)) (subtasks task)) else [])"
  by (simp add: visited.simps [of tm ic md r d])

lemma visited_cases:
  assumes "k \<in> set (visited tm ic md r d)"
  obtains task where "tm r = Some task" "ic \<or> status task \<noteq> 1" "k = id_of task"
  | task c where "tm r = Some task" "ic \<or> status task \<noteq> 1" "int d < md"
      "c \<in> set (subtasks task)" "k \<in> set (visited tm ic md c (Suc d))"
proof (cases "tm r")
  case None
  with assms show ?thesis by (simp add: visited_None)
next
  case (Some task)
  show ?thesis
  proof (cases "ic \<or> status task \<noteq> 1")
    case False
    with Some assms show ?thesis by (simp add: visited_closed)
  next
    case True
    from assms have "k \<in> set (id_of task # (if int d < md
                     then concat (map (\<lambda>c. visited tm ic md c (Suc d)) (subtasks task)) else []))"
      using Some True by (simp add: visited_Some [of tm r task ic md d])
    then consider "k = id_of task"
      | "int d < md" "\<exists>c \<in> set (subtasks task). k \<in> set (visited tm ic md c (Suc d))"
      by (cases "int d < md") auto
    then show ?thesis
    proof cases
      case 1
      with Some True that(1) show ?thesis by blast
    next
      case 2
      with Some True that(2) show ?thesis by blast
    qed
  qed
qed

lemma visited_open_chain:
  "keys_ok tm \<Longrightarrow> \<not> ic \<Longrightarrow> k \<in> set (visited tm ic md r d) \<Longrightarrow> open_chain tm r k"
proof (induction tm ic md r d arbitrary: k rule: visited.induct)
  case (1 tm ic md r d)
  note IH = "1.IH" and prems = "1.prems"
  from prems(3) show ?case
  proof (cases rule: visited_cases)
    case (1 task)
    moreover from 1 prems(1) have "id_of task = r" by (simp add: keys_ok_def)
    ultimately show ?thesis using prems(2) open_chain.here [of tm r task] by simp
  next
    case (2 task c)
    then have "open_chain tm c k"
      using IH [of task c k] prems(1,2) by simp
    with 2 show ?thesis using prems(2) open_chain.down [of tm r task c k] by simp
  qed
qed

lemma visited_chain_within:
  "keys_ok tm \<Longrightarrow> ic \<Longrightarrow> k \<in> set (visited tm ic md r d) \<Longrightarrow> chain_within tm (nat (md - int d)) r k"
proof (induction tm ic md r d arbitrary: k rule: visited.induct)
  case (1 tm ic md r d)
  note IH = "1.IH" and prems = "1.prems"
  from prems(3) show ?case
  proof (cases rule: visited_cases)
    case (1 task)
    moreover from 1 prems(1) have "id_of task = r" by (simp add: keys_ok_def)
    ultimately show ?thesis using chain_within.stay [of tm r task] by simp
  next
    case (2 task c)
    then have "chain_within tm (nat (md - int (Suc d))) c k"
      using IH [of task c k] prems(1,2) by simp
    moreover from 2 have "nat (md - int d) = Suc (nat (md - int (Suc d)))" by simp
    ultimately show ?thesis
      using 2 chain_within.step [of tm r task c "nat (md - int (Suc d))" k] by simp
  qed
qed

lemma chain_within_visited:
  "chain_within tm n r k \<Longrightarrow> keys_ok tm \<Longrightarrow> n \<le> nat (md - int d) \<Longrightarrow> k \<in> set (visited tm True md r d)"
proof (induction arbitrary: d rule: chain_within.induct)
  case (stay r task n)
  then have "id_of task = r" by (simp add: keys_ok_def)
  with stay show ?case by (simp add: visited_Some [of tm r task True md d])
next
  case (step r task c n k)
  from step.prems have lt: "int d < md" and le: "n \<le> nat (md - int (Suc d))" by simp_all
  from step.IH [OF step.prems(1) le] have "k \<in> set (visited tm True md c (Suc d))" .
  with step.hyps(1,2) lt show ?case
    by (simp add: visited_Some [of tm r task True md d]) blast
qed

lemma formatTask_summary_closed:
  "taskMap r = Some task \<Longrightarrow> status task = 1 \<Longrightarrow> formatTask_summary taskMap False cm md r d = []"
  by (simp add: formatTask_summary.simps [of taskMap False cm md r d])

lemma formatTask_tree_closed:
  "taskMap r = Some task \<Longrightarrow> status task = 1 \<Longrightarrow> formatTask_tree taskMap wn False cm md r d = []"
  by (simp add: formatTask_tree.simps [of taskMap wn False cm md r d])

lemma summary_handler_ids:
  "rendered_ids (checkvist_get_tasks_summary ts preview max_depth ic compact)
     = concat (map (\<lambda>task. visited (taskMap_of ts) ic (summary_maxDepth preview max_depth) (id_of task) 0)
         (topLevelTasks_of ts))"
  by (simp add: checkvist_get_tasks_summary_def summary_body_def Let_def
      rendered_ids_concat o_def summary_visited)

lemma visited_open_chain_taskMap_of:
  "k \<in> set (visited (taskMap_of ts) False md r d) \<Longrightarrow> open_chain (taskMap_of ts) r k"
  using visited_open_chain [of "taskMap_of ts" False k md r d] keys_ok_taskMap_of [of ts] by simp

lemma scenario_lookup:
  "taskMap_of scenario 1 = Some (plain_task 1 0 0 (Some [11, 12]))"
  "taskMap_of scenario 11 = Some (plain_task 11 1 0 None)"
  "taskMap_of scenario 12 = Some (plain_task 12 1 1 (Some [121]))"
  "taskMap_of scenario 121 = Some (plain_task 121 12 0 None)"
  "taskMap_of scenario 2 = Some (plain_task 2 0 0 (Some []))"
  by (simp_all add: taskMap_of_def scenario_def plain_task_def)

lemma plain_task_sel [simp]:
  "id_of (plain_task i p s cs) = i" "parent_id (plain_task i p s cs) = p"
  "status (plain_task i p s cs) = s" "tasks (plain_task i p s cs) = cs"
  "content (plain_task i p s cs) = js ''t''" "due (plain_task i p s cs) = None"
  "priority (plain_task i p s cs) = None" "tags_as_text (plain_task i p s cs) = None"
  "notes_list (plain_task i p s cs) = None"
  "subtasks (plain_task i p s cs) = (case cs of None \<Rightarrow> [] | Some c \<Rightarrow> c)"
  "notes_of (plain_task i p s cs) = []"
  by (simp_all add: plain_task_def subtasks_def notes_of_def)

lemma page_ids_general:
  assumes "1 \<le> p" "p \<le> int (totalPages_of ts)"
  shows "checkvist_get_tasks_paginated ts p compact max_depth uc
           = Inr (page_header ts p uc (compact \<noteq> Some False) (case max_depth of Some d \<Rightarrow> d | None \<Rightarrow> 2)
                  @ page_body ts p uc (compact \<noteq> Some False) (case max_depth of Some d \<Rightarrow> d | None \<Rightarrow> 2)
                  @ page_footer ts p (case max_depth of Some d \<Rightarrow> d | None \<Rightarrow> 2))"
    and "rendered_ids (page_body ts p uc cm md)
           = visited (taskMap_of ts) True md (id_of (topLevelTasks_of ts ! nat (p - 1))) 0"
  using assms
  by (simp_all add: checkvist_get_tasks_paginated_def Let_def page_body_def pageTasks_of_valid
      paginated_visited)

lemma visited_iff_chain_within:
  "k \<in> set (visited (taskMap_of ts) True md r d) \<longleftrightarrow> chain_within (taskMap_of ts) (nat (md - int d)) r k"
  using visited_chain_within [of "taskMap_of ts" True k md r d]
    chain_within_visited [of "taskMap_of ts" "nat (md - int d)" r k md d]
    keys_ok_taskMap_of [of ts]
  by auto

section \<open>Collections that list a forest\<close>

lemma taskMap_of_distinct:
  "distinct (map id_of ts) \<Longrightarrow> r \<in> set ts \<Longrightarrow> taskMap_of ts (id_of r) = Some r"
proof (induction ts rule: rev_induct)
  case Nil
  then show ?case by simp
next
  case (snoc x xs)
  show ?case
  proof (cases "r = x")
    case True
    then show ?thesis by (simp add: taskMap_of_snoc)
  next
    case False
    with snoc.prems have "r \<in> set xs" "id_of x \<noteq> id_of r" by auto
    with snoc show ?thesis by (simp add: taskMap_of_snoc)
  qed
qed

lemma Math_max_ge: "x \<in> set xs \<Longrightarrow> x \<le> Math_max xs"
  by (induction xs) (auto simp: Math_max_def)

lemma tree_visited_all:
  "encodes is_top t \<Longrightarrow> set (records_of t) \<subseteq> set ts \<Longrightarrow> distinct (map id_of ts) \<Longrightarrow>
   int d + int (height_of t) \<le> md \<Longrightarrow>
   visited (taskMap_of ts) True md (id_of (root_record t)) d = map id_of (records_of t)"
proof (induction t arbitrary: is_top d)
  case (Node r cs)
  from Node.prems have found: "taskMap_of ts (id_of r) = Some r"
    by (simp add: taskMap_of_distinct)
  from Node.prems(1) have kids: "subtasks r = map (\<lambda>c. id_of (root_record c)) cs"
    and enc: "\<And>c. c \<in> set cs \<Longrightarrow> encodes False c"
    by (simp_all add: list_all_iff)
  show ?case
  proof (cases "cs = []")
    case True
    with found kids show ?thesis by (simp add: visited_Some [of "taskMap_of ts" "id_of r" r True md d])
  next
    case False
    with Node.prems(4) have lt: "int d < md" by simp
    have each: "visited (taskMap_of ts) True md (id_of (root_record c)) (Suc d) = map id_of (records_of c)"
      if c: "c \<in> set cs" for c
    proof (rule Node.IH [OF c enc [OF c] _ Node.prems(3)])
      from c Node.prems(2) show "set (records_of c) \<subseteq> set ts" by auto
      from c have "height_of c \<le> Math_max (map height_of cs)" by (simp add: Math_max_ge)
      with False Node.prems(4) show "int (Suc d) + int (height_of c) \<le> md" by simp
    qed
    have "concat (map (\<lambda>c. visited (taskMap_of ts) True md c (Suc d)) (subtasks r))
        = concat (map (\<lambda>c. map id_of (records_of c)) cs)"
      unfolding kids by (simp add: o_def each cong: map_cong)
    also have "\<dots> = map id_of (concat (map records_of cs))"
      by (simp add: map_concat o_def)
    finally show ?thesis
      using found lt by (simp add: visited_Some [of "taskMap_of ts" "id_of r" r True md d])
  qed
qed

lemma topLevel_of_tree:
  "encodes is_top t \<Longrightarrow> topLevelTasks_of (records_of t) = (if is_top then [root_record t] else [])"
proof (induction t arbitrary: is_top)
  case (Node r cs)
  have "filter (\<lambda>task. parent_id task = 0) (records_of c) = []" if "c \<in> set cs" for c
    using Node.IH [OF that, of False] Node.prems that
    by (simp add: topLevelTasks_of_def list_all_iff)
  then have "concat (map (\<lambda>c. filter (\<lambda>task. parent_id task = 0) (records_of c)) cs) = []"
    by simp
  with Node.prems show ?case
    by (auto simp: topLevelTasks_of_def filter_concat o_def)
qed

lemma topLevel_of_forest:
  "list_all (encodes True) forest \<Longrightarrow>
   topLevelTasks_of (concat (map records_of forest)) = map root_record forest"
proof (induction forest)
  case Nil
  show ?case by (simp add: topLevelTasks_of_def)
next
  case (Cons t forest)
  then have "topLevelTasks_of (records_of t) = [root_record t]"
    using topLevel_of_tree [of True t] by simp
  with Cons show ?case by (simp add: topLevelTasks_of_def)
qed

lemma array_map_Some:
  "(\<And>x. x \<in> set xs \<Longrightarrow> f x = Some (g x)) \<Longrightarrow> array_map f xs = Some (map g xs)"
  by (induction xs) simp_all

lemma array_map_map: "array_map f (map g xs) = array_map (\<lambda>x. f (g x)) xs"
  by (induction xs) simp_all

lemma array_map_total:
  "(\<And>x. x \<in> set xs \<Longrightarrow> \<exists>y. f x = Some y) \<Longrightarrow> \<exists>ys. array_map f xs = Some ys"
proof (induction xs)
  case Nil
  show ?case by simp
next
  case (Cons x xs)
  then obtain y ys where "f x = Some y" "array_map f xs = Some ys"
    by (metis list.set_intros(1) list.set_intros(2))
  then show ?case by simp
qed


lemma getDepth_leaf:
  "taskMap taskId = Some task \<Longrightarrow> subtasks task = [] \<Longrightarrow> getDepth taskMap taskId d = Some d"
  by (subst getDepth.simps) simp

lemma getDepth_node:
  "taskMap taskId = Some task \<Longrightarrow> subtasks task \<noteq> [] \<Longrightarrow>
   getDepth taskMap taskId d
     = Option.bind (array_map (\<lambda>childId. getDepth taskMap childId (Suc d)) (subtasks task))
         (\<lambda>childDepths. Some (Math_max childDepths))"
  by (subst getDepth.simps) simp

lemma Math_max_add:
  "xs \<noteq> [] \<Longrightarrow> Math_max (map (\<lambda>x. n + f x) xs) = n + Math_max (map f xs)"
proof (induction xs)
  case Nil
  then show ?case by simp
next
  case (Cons x xs)
  show ?case
  proof (cases "xs = []")
    case True
    then show ?thesis by (simp add: Math_max_def)
  next
    case False
    with Cons.IH have "Math_max (map (\<lambda>x. n + f x) xs) = n + Math_max (map f xs)" by simp
    then show ?thesis by (simp add: Math_max_def)
  qed
qed

lemma getDepth_tree:
  "encodes is_top t \<Longrightarrow> set (records_of t) \<subseteq> set ts \<Longrightarrow> distinct (map id_of ts) \<Longrightarrow>
   getDepth (taskMap_of ts) (id_of (root_record t)) d = Some (d + height_of t)"
proof (induction t arbitrary: is_top d)
  case (Node r cs)
  from Node.prems have found: "taskMap_of ts (id_of r) = Some r"
    by (simp add: taskMap_of_distinct)
  from Node.prems(1) have kids: "subtasks r = map (\<lambda>c. id_of (root_record c)) cs"
    and enc: "\<And>c. c \<in> set cs \<Longrightarrow> encodes False c"
    by (simp_all add: list_all_iff)
  show ?case
  proof (cases "cs = []")
    case True
    with found kids show ?thesis by (simp add: getDepth_leaf)
  next
    case False
    have each: "getDepth (taskMap_of ts) (id_of (root_record c)) (Suc d) = Some (Suc d + height_of c)"
      if c: "c \<in> set cs" for c
    proof (rule Node.IH [OF c enc [OF c] _ Node.prems(3)])
      from c Node.prems(2) show "set (records_of c) \<subseteq> set ts" by auto
    qed
    have "array_map (\<lambda>childId. getDepth (taskMap_of ts) childId (Suc d)) (subtasks r)
        = array_map (\<lambda>c. getDepth (taskMap_of ts) (id_of (root_record c)) (Suc d)) cs"
      unfolding kids by (rule array_map_map)
    also have "\<dots> = Some (map (\<lambda>c. Suc d + height_of c) cs)"
      by (rule array_map_Some) (rule each)
    finally have "getDepth (taskMap_of ts) (id_of r) d
        = Some (Math_max (map (\<lambda>c. Suc d + height_of c) cs))"
      using found kids False by (simp add: getDepth_node)
    also have "Math_max (map (\<lambda>c. Suc d + height_of c) cs) = Suc d + Math_max (map height_of cs)"
      using False by (rule Math_max_add)
    finally show ?thesis using False by simp
  qed
qed

lemma height_le_Math_max: "t \<in> set forest \<Longrightarrow> height_of t \<le> Math_max (map height_of forest)"
  by (simp add: Math_max_ge)

lemma mset_concat_map_cong:
  "mset xs = mset ys \<Longrightarrow> mset (concat (map f xs)) = mset (concat (map f ys))"
proof -
  assume "mset xs = mset ys"
  then have "image_mset (\<lambda>x. mset (f x)) (mset xs) = image_mset (\<lambda>x. mset (f x)) (mset ys)"
    by simp
  then have "sum_mset (mset (map (\<lambda>x. mset (f x)) xs)) = sum_mset (mset (map (\<lambda>x. mset (f x)) ys))"
    by simp
  then show ?thesis
    by (simp only: mset_concat sum_mset_sum_list map_map o_def)
qed

lemma topLevel_mset:
  assumes "mset ts = mset (concat (map records_of forest))" "list_all (encodes True) forest"
  shows "mset (topLevelTasks_of ts) = mset (map root_record forest)"
proof -
  have "mset (topLevelTasks_of ts) = mset (topLevelTasks_of (concat (map records_of forest)))"
    using assms(1) by (simp add: topLevelTasks_of_def)
  then show ?thesis by (simp only: topLevel_of_forest [OF assms(2)])
qed

lemma forest_visited_mset:
  assumes perm: "mset ts = mset (concat (map records_of forest))"
    and enc: "list_all (encodes True) forest"
    and dist: "distinct (map id_of ts)"
    and deep: "int (Math_max (map height_of forest)) \<le> md"
  shows "mset (concat (map (\<lambda>task. visited (taskMap_of ts) True md (id_of task) 0) (topLevelTasks_of ts)))
         = mset (map id_of ts)"
proof -
  let ?V = "\<lambda>task. visited (taskMap_of ts) True md (id_of task) 0"
  from perm have sets: "set ts = set (concat (map records_of forest))"
    by (rule mset_eq_setD)
  have each: "?V (root_record t) = map id_of (records_of t)" if t: "t \<in> set forest" for t
  proof (rule tree_visited_all [of True])
    from t enc show "encodes True t" by (simp add: list_all_iff)
    from t sets show "set (records_of t) \<subseteq> set ts" by auto
    from dist show "distinct (map id_of ts)" .
    from deep height_le_Math_max [OF t] show "int 0 + int (height_of t) \<le> md" by simp
  qed
  have eq: "map (\<lambda>t. ?V (root_record t)) forest = map (\<lambda>t. map id_of (records_of t)) forest"
    by (rule map_cong [OF refl]) (rule each)
  have "mset (concat (map ?V (topLevelTasks_of ts))) = mset (concat (map ?V (map root_record forest)))"
    by (rule mset_concat_map_cong) (rule topLevel_mset [OF perm enc])
  also have "concat (map ?V (map root_record forest)) = concat (map (\<lambda>t. ?V (root_record t)) forest)"
    by (simp only: map_map o_def)
  also have "\<dots> = concat (map (\<lambda>t. map id_of (records_of t)) forest)"
    by (simp only: eq)
  also have "\<dots> = map id_of (concat (map records_of forest))"
    by (simp only: map_concat map_map o_def)
  also have "mset \<dots> = mset (map id_of ts)"
    using perm by simp
  finally show ?thesis .
qed

lemma analyze_total_forest:
  assumes perm: "mset ts = mset (concat (map records_of forest))"
    and enc: "list_all (encodes True) forest"
    and dist: "distinct (map id_of ts)"
  shows "map_option total (analyze ts) = Some (length ts)"
proof -
  from perm have sets: "set ts = set (concat (map records_of forest))"
    by (rule mset_eq_setD)
  have "\<exists>v. getDepth (taskMap_of ts) (id_of task) 0 = Some v"
    if "task \<in> set (topLevelTasks_of ts)" for task
  proof -
    from that topLevel_mset [OF perm enc] have "task \<in> set (map root_record forest)"
      by (metis mset_eq_setD)
    then obtain t where t: "t \<in> set forest" and task: "task = root_record t" by auto
    from t enc have "encodes True t" by (simp add: list_all_iff)
    moreover from t sets have "set (records_of t) \<subseteq> set ts" by auto
    ultimately have "getDepth (taskMap_of ts) (id_of (root_record t)) 0 = Some (0 + height_of t)"
      using dist by (rule getDepth_tree)
    with task show ?thesis by simp
  qed
  then obtain depths
    where "array_map (\<lambda>task. getDepth (taskMap_of ts) (id_of task) 0) (topLevelTasks_of ts) = Some depths"
    using array_map_total [of "topLevelTasks_of ts" "\<lambda>task. getDepth (taskMap_of ts) (id_of task) 0"]
    by blast
  then show ?thesis by (simp add: analyze_def Let_def)
qed

section \<open>Calls within the stack\<close>












lemma after_lines_Inr [simp]: "after_lines ls (Inr rest) = Inr (ls @ rest)"
  by (simp add: after_lines_def)

lemma after_lines_Inl [simp]: "after_lines ls (Inl e) = Inl e"
  by (simp add: after_lines_def)








section \<open>Page numbers\<close>

text \<open>
  Claim C3. The paginated view throws the invalid-page error exactly when the page
  number is below 1 or above the number of pages, which is the number of top-level
  tasks (the ceiling of the count over a page size of 1). No page number is clamped: in
  particular page 0 and the page after the last one both throw.
\<close>

theorem paginated_invalid_page:
  "(case checkvist_get_tasks_paginated allTasks p compact max_depth ultra_compact of
      Inl e \<Rightarrow> is_InvalidPage e | Inr ls \<Rightarrow> False)
     = (p < 1 \<or> int (totalPages_of allTasks) < p)
   \<and> totalPages_of allTasks = length (topLevelTasks_of allTasks)
   \<and> isl (checkvist_get_tasks_paginated allTasks 0 compact max_depth ultra_compact)
   \<and> isl (checkvist_get_tasks_paginated allTasks (int (totalPages_of allTasks) + 1)
            compact max_depth ultra_compact)"
  by (simp add: checkvist_get_tasks_paginated_def Let_def totalPages_of_eq)

section \<open>Statistics of the empty checklist\<close>

text \<open>
  Claim C6. On the empty collection the statistics handler returns (nothing is thrown),
  and the line of the closed tasks prints the fraction 0 / 0 as \<open>NaN%\<close>, where the
  claim expects \<open>0%\<close>.
\<close>

theorem stats_empty_closed_fraction:
  "map_option closed_line (analyze []) = Some (glyph_closed @ js '' Closed tasks: 0 (NaN%)'' @ nl)
   \<and> checkvist_get_checklist_stats [] checklist_id \<noteq> None"
  by (simp add: analyze_def checkvist_get_checklist_stats_def topLevelTasks_of_def closed_line_def
      toFixed1_def Math_max_def show_nat.simps js_simps)

section \<open>Status marks of the full mode\<close>

text \<open>
  Claim C8. In the full mode of the summary an invalidated task (status 2) gets the
  line of an open task, mark \<open>[ ]\<close>, while the full mode of the task tree marks it
  with the mark of its own: the summary's full mode has two marks, not three.
\<close>

theorem summary_full_invalidated_like_open:
  "formatTask_summary (taskMap_of [plain_task 1 0 2 None]) True False 99 1 0
     = [TaskLine 1 (js ''[ ] t [ID: 1]'' @ nl)]
   \<and> formatTask_summary (taskMap_of [plain_task 1 0 0 None]) True False 99 1 0
     = [TaskLine 1 (js ''[ ] t [ID: 1]'' @ nl)]
   \<and> formatTask_tree (taskMap_of [plain_task 1 0 2 None]) False True False 99 1 0
     = [TaskLine 1 (js ''['' @ glyph_invalidated @ js ''] t [1]'' @ nl)]"
  by (simp add: formatTask_summary.simps formatTask_tree.simps taskMap_of_def plain_task_def
      summary_full_line_def status_summary_full_def indent_of_def show_int_def show_nat.simps
      summary_note_lines_def notes_of_def subtasks_def js_simps
      tree_full_line_def status_full_def full_meta_def tree_note_lines_def)

section \<open>All pages together\<close>

text \<open>
  Claim C5. With the same depth limit (99 or any other) the ids of the task lines of the
  pages 1 to \<open>totalPages\<close> in ultra-compact mode, one page after the other, are the ids
  of the task lines of the full-mode summary with closed tasks included, in the same
  order; so the two sets of ids are equal.
\<close>

theorem pages_cover_summary:
  "concat (map (\<lambda>p. result_ids (checkvist_get_tasks_paginated ts (int p) compact (Some maxDepth) True))
       [1..<Suc (totalPages_of ts)])
     = rendered_ids (checkvist_get_tasks_summary ts False (Some maxDepth) True False)
   \<and> (\<Union>p \<in> {1..totalPages_of ts}.
         set (result_ids (checkvist_get_tasks_paginated ts (int p) compact (Some maxDepth) True)))
     = set (rendered_ids (checkvist_get_tasks_summary ts False (Some maxDepth) True False))"
proof -
  let ?page = "\<lambda>p. result_ids (checkvist_get_tasks_paginated ts (int p) compact (Some maxDepth) True)"
  let ?f = "\<lambda>task. visited (taskMap_of ts) True maxDepth (id_of task) 0"
  have "map ?page [1..<Suc (totalPages_of ts)]
      = map (\<lambda>p. ?f (topLevelTasks_of ts ! nat (int p - 1))) [1..<Suc (totalPages_of ts)]"
  proof (rule map_cong [OF refl])
    fix p assume "p \<in> set [1..<Suc (totalPages_of ts)]"
    then have "1 \<le> int p" "int p \<le> int (totalPages_of ts)" by auto
    then show "?page p = ?f (topLevelTasks_of ts ! nat (int p - 1))"
      by (rule page_ids)
  qed
  also have "\<dots> = map ?f (topLevelTasks_of ts)"
    unfolding totalPages_of_eq by (rule map_pages)
  finally have pages: "map ?page [1..<Suc (totalPages_of ts)] = map ?f (topLevelTasks_of ts)" .
  have lists: "concat (map ?page [1..<Suc (totalPages_of ts)])
      = rendered_ids (checkvist_get_tasks_summary ts False (Some maxDepth) True False)"
    by (simp only: pages summary_ids)
  have range: "set [1..<Suc (totalPages_of ts)] = {1..totalPages_of ts}"
    by (simp only: set_upt atLeastLessThanSuc_atLeastAtMost)
  have "set (concat (map ?page ps)) = (\<Union>p \<in> set ps. set (?page p))" for ps
    by (induction ps) simp_all
  from this [of "[1..<Suc (totalPages_of ts)]"]
  have "(\<Union>p \<in> {1..totalPages_of ts}. set (?page p))
      = set (concat (map ?page [1..<Suc (totalPages_of ts)]))"
    by (simp only: range)
  with lists show ?thesis by (simp only: simp_thms)
qed

section \<open>Closed tasks in the summary and the task tree\<close>

text \<open>
  Claim C1, as the code has it. In the summary and in the task tree, without
  \<open>include_closed\<close>, a closed task gives no output at all, and nothing is rendered
  through it: every task line, of \<open>formatTask\<close> and of the whole view, is for a task
  reached from the root it was rendered under along child references through tasks that
  are not closed, itself included.
\<close>

theorem closed_subtree_pruned:
  "(taskMap_of ts r = Some task \<and> status task = 1 \<longrightarrow>
      formatTask_summary (taskMap_of ts) False cm md r d = []
      \<and> formatTask_tree (taskMap_of ts) wn False cm md r d = [])
   \<and> (k \<in> set (rendered_ids (formatTask_summary (taskMap_of ts) False cm md r d))
        \<longrightarrow> open_chain (taskMap_of ts) r k)
   \<and> (k \<in> set (rendered_ids (formatTask_tree (taskMap_of ts) wn False cm md r d))
        \<longrightarrow> open_chain (taskMap_of ts) r k)
   \<and> (k \<in> set (rendered_ids (checkvist_get_tasks_summary ts preview max_depth False compact))
        \<longrightarrow> (\<exists>root \<in> set (topLevelTasks_of ts). open_chain (taskMap_of ts) (id_of root) k))
   \<and> (k \<in> set (result_ids (checkvist_get_task_tree ts checklist_id r wn False max_depth compact))
        \<longrightarrow> open_chain (taskMap_of ts) r k)"
proof (intro conjI impI)
  assume "taskMap_of ts r = Some task \<and> status task = 1"
  then show "formatTask_summary (taskMap_of ts) False cm md r d = []"
    by (simp add: formatTask_summary_closed)
next
  assume "taskMap_of ts r = Some task \<and> status task = 1"
  then show "formatTask_tree (taskMap_of ts) wn False cm md r d = []"
    by (simp add: formatTask_tree_closed)
next
  assume "k \<in> set (rendered_ids (formatTask_summary (taskMap_of ts) False cm md r d))"
  then show "open_chain (taskMap_of ts) r k"
    by (simp add: summary_visited visited_open_chain_taskMap_of)
next
  assume "k \<in> set (rendered_ids (formatTask_tree (taskMap_of ts) wn False cm md r d))"
  then show "open_chain (taskMap_of ts) r k"
    by (simp add: tree_visited visited_open_chain_taskMap_of)
next
  assume "k \<in> set (rendered_ids (checkvist_get_tasks_summary ts preview max_depth False compact))"
  then obtain root where root: "root \<in> set (topLevelTasks_of ts)"
    and k: "k \<in> set (visited (taskMap_of ts) False (summary_maxDepth preview max_depth) (id_of root) 0)"
    by (auto simp: summary_handler_ids)
  from k have "open_chain (taskMap_of ts) (id_of root) k"
    by (rule visited_open_chain_taskMap_of)
  with root show "\<exists>root \<in> set (topLevelTasks_of ts). open_chain (taskMap_of ts) (id_of root) k"
    by blast
next
  assume a: "k \<in> set (result_ids (checkvist_get_task_tree ts checklist_id r wn False max_depth compact))"
  show "open_chain (taskMap_of ts) r k"
  proof (cases "taskMap_of ts r")
    case None
    with a show ?thesis by (simp add: checkvist_get_task_tree_def)
  next
    case (Some rootTask)
    with a have "k \<in> set (visited (taskMap_of ts) False (case max_depth of Some d \<Rightarrow> d | None \<Rightarrow> 3) r 0)"
      by (simp add: checkvist_get_task_tree_def Let_def tree_visited)
    then show ?thesis
      by (rule visited_open_chain_taskMap_of)
  qed
qed

theorem closed_subtree_pruned_witness:
  "formatTask_summary (taskMap_of scenario) False False 99 12 1 = []
   \<and> formatTask_tree (taskMap_of scenario) False False False 99 12 1 = []
   \<and> open_chain (taskMap_of scenario) 1 11"
proof -
  have closed: "taskMap_of scenario 12 = Some (plain_task 12 1 1 (Some [121]))
      \<and> status (plain_task 12 1 1 (Some [121])) = 1"
    by (simp add: scenario_lookup)
  have shown: "11 \<in> set (rendered_ids (formatTask_summary (taskMap_of scenario) False False 99 1 0))"
    by (simp add: summary_visited visited.simps scenario_lookup)
  from closed
    closed_subtree_pruned [of scenario 12 "plain_task 12 1 1 (Some [121])" False 99 1 False]
  have "formatTask_summary (taskMap_of scenario) False False 99 12 1 = []
      \<and> formatTask_tree (taskMap_of scenario) False False False 99 12 1 = []"
    by blast
  moreover from shown
    closed_subtree_pruned [of scenario 1 "plain_task 1 0 0 None" False 99 0 False 11]
  have "open_chain (taskMap_of scenario) 1 11"
    by blast
  ultimately show ?thesis by simp
qed

text \<open>
  Against claim C1 as stated: the pages have no such filter. Page 1 of the scenario
  renders the closed task 12 and its open child 121.
\<close>

theorem paginated_renders_below_closed:
  "result_ids (checkvist_get_tasks_paginated scenario 1 None (Some 99) False) = [1, 11, 12, 121]"
  by (simp add: checkvist_get_tasks_paginated_def Let_def totalPages_of_eq topLevelTasks_of_def
      page_body_def pageTasks_of_def pageSize_def page_header_def page_footer_def
      formatTask_paginated.simps taskMap_of_def scenario_def plain_task_def subtasks_def)

section \<open>The pages filter nothing\<close>

text \<open>
  Claim C9. The paginated \<open>formatTask\<close> writes a task line for exactly the ids reached
  from its root along at most \<open>maxDepth - depth\<close> child references through records of
  the map, whatever the status of any of them; and on a valid page the handler does not
  throw and its task lines are exactly those reached in this way from the top-level task of
  the page, within \<open>max_depth\<close> (2 when the request has none). The handler takes no
  \<open>include_closed\<close>.
\<close>

theorem paginated_renders_all_reachable:
  "(k \<in> set (rendered_ids (formatTask_paginated (taskMap_of ts) ultraCompact compactMode maxDepth r depth))
      = chain_within (taskMap_of ts) (nat (maxDepth - int depth)) r k)
   \<and> (1 \<le> p \<and> p \<le> int (totalPages_of ts) \<longrightarrow>
        \<not> isl (checkvist_get_tasks_paginated ts p compact max_depth ultra_compact)
        \<and> (k \<in> set (result_ids (checkvist_get_tasks_paginated ts p compact max_depth ultra_compact))
             = chain_within (taskMap_of ts) (nat (case max_depth of Some d \<Rightarrow> d | None \<Rightarrow> 2))
                 (id_of (topLevelTasks_of ts ! nat (p - 1))) k))"
proof (intro conjI impI)
  show "(k \<in> set (rendered_ids (formatTask_paginated (taskMap_of ts) ultraCompact compactMode maxDepth r depth)))
      = chain_within (taskMap_of ts) (nat (maxDepth - int depth)) r k"
    by (simp add: paginated_visited visited_iff_chain_within)
next
  assume "1 \<le> p \<and> p \<le> int (totalPages_of ts)"
  then show "\<not> isl (checkvist_get_tasks_paginated ts p compact max_depth ultra_compact)"
    by (simp add: page_ids_general(1))
next
  assume "1 \<le> p \<and> p \<le> int (totalPages_of ts)"
  then show "(k \<in> set (result_ids (checkvist_get_tasks_paginated ts p compact max_depth ultra_compact)))
             = chain_within (taskMap_of ts) (nat (case max_depth of Some d \<Rightarrow> d | None \<Rightarrow> 2))
                 (id_of (topLevelTasks_of ts ! nat (p - 1))) k"
    by (simp add: page_ids_general visited_iff_chain_within)
qed

theorem paginated_renders_all_reachable_witness:
  "\<not> isl (checkvist_get_tasks_paginated scenario 1 None None False)
   \<and> chain_within (taskMap_of scenario) 2 1 121"
proof -
  have valid: "(1::int) \<le> 1 \<and> 1 \<le> int (totalPages_of scenario)"
    by (simp add: totalPages_of_eq topLevelTasks_of_def scenario_def)
  have root: "id_of (topLevelTasks_of scenario ! nat (1 - 1)) = 1"
    by (simp add: topLevelTasks_of_def scenario_def)
  have shown: "121 \<in> set (result_ids (checkvist_get_tasks_paginated scenario 1 None None False))"
    by (simp add: checkvist_get_tasks_paginated_def Let_def totalPages_of_eq topLevelTasks_of_def
        page_body_def pageTasks_of_def pageSize_def page_header_def page_footer_def
        formatTask_paginated.simps taskMap_of_def scenario_def plain_task_def subtasks_def)
  from valid root shown
    paginated_renders_all_reachable [of 121 scenario False False 0 0 0 1 None None False]
  show ?thesis by simp
qed

section \<open>Children and markers\<close>

text \<open>
  Claim C7, as the code has it. At a record that is found (and, in the summary and the
  task tree, not pruned as closed), every renderer writes the task line (and its notes)
  and then, when \<open>depth < maxDepth\<close>, the output of each child in the listed order.
  At \<open>depth \<ge> maxDepth\<close> with children: the task tree (both modes) writes one marker
  with the number of children and the value \<open>maxDepth + 1\<close>; the summary's full mode and
  the pages' compact and full modes write one marker with the number of children only;
  the summary's compact mode and the pages' ultra-compact mode write nothing more.
\<close>

theorem subtree_expansion:
  "taskMap taskId = Some task \<longrightarrow>
     (includeClosed \<or> status task \<noteq> 1 \<longrightarrow>
        formatTask_summary taskMap includeClosed True maxDepth taskId depth
          = TaskLine (id_of task) (compact_line task depth)
            # (if int depth < maxDepth
               then concat (map (\<lambda>c. formatTask_summary taskMap includeClosed True maxDepth c (Suc depth))
                      (subtasks task))
               else [])
        \<and> formatTask_summary taskMap includeClosed False maxDepth taskId depth
          = TaskLine (id_of task) (summary_full_line task depth) # summary_note_lines task depth
            @ (if int depth < maxDepth
               then concat (map (\<lambda>c. formatTask_summary taskMap includeClosed False maxDepth c (Suc depth))
                      (subtasks task))
               else if subtasks task \<noteq> []
               then [MarkerLine (indent_of depth @ js ''  ... ('' @ show_nat (length (subtasks task))
                       @ js '' more subtasks, increase max_depth to see)'' @ nl)]
               else [])
        \<and> formatTask_tree taskMap withNotes includeClosed True maxDepth taskId depth
          = TaskLine (id_of task) (id_title_line 50 task depth)
            # (if int depth < maxDepth
               then concat (map (\<lambda>c. formatTask_tree taskMap withNotes includeClosed True maxDepth c (Suc depth))
                      (subtasks task))
               else if subtasks task \<noteq> []
               then [MarkerLine (indent_of depth @ js ''  ... ('' @ show_nat (length (subtasks task))
                       @ js '' more, use max_depth='' @ show_int (maxDepth + 1) @ js '')'' @ nl)]
               else [])
        \<and> formatTask_tree taskMap withNotes includeClosed False maxDepth taskId depth
          = TaskLine (id_of task) (tree_full_line task depth) # tree_note_lines withNotes task depth
            @ (if int depth < maxDepth
               then concat (map (\<lambda>c. formatTask_tree taskMap withNotes includeClosed False maxDepth c (Suc depth))
                      (subtasks task))
               else if subtasks task \<noteq> []
               then [MarkerLine (indent_of depth @ js ''  ... ('' @ show_nat (length (subtasks task))
                       @ js '' more subtasks, use max_depth='' @ show_int (maxDepth + 1) @ js '')'' @ nl)]
               else []))
     \<and> formatTask_paginated taskMap True compactMode maxDepth taskId depth
          = TaskLine (id_of task) (id_title_line 40 task depth)
            # (if int depth < maxDepth
               then concat (map (\<lambda>c. formatTask_paginated taskMap True compactMode maxDepth c (Suc depth))
                      (subtasks task))
               else [])
     \<and> formatTask_paginated taskMap False True maxDepth taskId depth
          = TaskLine (id_of task) (compact_line task depth)
            # (if int depth < maxDepth
               then concat (map (\<lambda>c. formatTask_paginated taskMap False True maxDepth c (Suc depth))
                      (subtasks task))
               else if subtasks task \<noteq> []
               then [MarkerLine (indent_of depth @ js ''  ... ('' @ show_nat (length (subtasks task))
                       @ js '' more)'' @ nl)]
               else [])
     \<and> formatTask_paginated taskMap False False maxDepth taskId depth
          = TaskLine (id_of task) (page_full_line task depth)
            # (if int depth < maxDepth
               then concat (map (\<lambda>c. formatTask_paginated taskMap False False maxDepth c (Suc depth))
                      (subtasks task))
               else if subtasks task \<noteq> []
               then [MarkerLine (indent_of depth @ js ''  ... ('' @ show_nat (length (subtasks task))
                       @ js '' more)'' @ nl)]
               else [])"
proof (intro impI conjI)
  assume t: "taskMap taskId = Some task" and o: "includeClosed \<or> status task \<noteq> 1"
  from t o show "formatTask_summary taskMap includeClosed True maxDepth taskId depth
          = TaskLine (id_of task) (compact_line task depth)
            # (if int depth < maxDepth
               then concat (map (\<lambda>c. formatTask_summary taskMap includeClosed True maxDepth c (Suc depth))
                      (subtasks task))
               else [])"
    by (auto simp: formatTask_summary.simps [of taskMap includeClosed True maxDepth taskId depth])
  from t o show "formatTask_summary taskMap includeClosed False maxDepth taskId depth
          = TaskLine (id_of task) (summary_full_line task depth) # summary_note_lines task depth
            @ (if int depth < maxDepth
               then concat (map (\<lambda>c. formatTask_summary taskMap includeClosed False maxDepth c (Suc depth))
                      (subtasks task))
               else if subtasks task \<noteq> []
               then [MarkerLine (indent_of depth @ js ''  ... ('' @ show_nat (length (subtasks task))
                       @ js '' more subtasks, increase max_depth to see)'' @ nl)]
               else [])"
    by (auto simp: formatTask_summary.simps [of taskMap includeClosed False maxDepth taskId depth]
        summary_marker_def)
  from t o show "formatTask_tree taskMap withNotes includeClosed True maxDepth taskId depth
          = TaskLine (id_of task) (id_title_line 50 task depth)
            # (if int depth < maxDepth
               then concat (map (\<lambda>c. formatTask_tree taskMap withNotes includeClosed True maxDepth c (Suc depth))
                      (subtasks task))
               else if subtasks task \<noteq> []
               then [MarkerLine (indent_of depth @ js ''  ... ('' @ show_nat (length (subtasks task))
                       @ js '' more, use max_depth='' @ show_int (maxDepth + 1) @ js '')'' @ nl)]
               else [])"
    by (auto simp: formatTask_tree.simps [of taskMap withNotes includeClosed True maxDepth taskId depth]
        tree_compact_marker_def)
  from t o show "formatTask_tree taskMap withNotes includeClosed False maxDepth taskId depth
          = TaskLine (id_of task) (tree_full_line task depth) # tree_note_lines withNotes task depth
            @ (if int depth < maxDepth
               then concat (map (\<lambda>c. formatTask_tree taskMap withNotes includeClosed False maxDepth c (Suc depth))
                      (subtasks task))
               else if subtasks task \<noteq> []
               then [MarkerLine (indent_of depth @ js ''  ... ('' @ show_nat (length (subtasks task))
                       @ js '' more subtasks, use max_depth='' @ show_int (maxDepth + 1) @ js '')'' @ nl)]
               else [])"
    by (auto simp: formatTask_tree.simps [of taskMap withNotes includeClosed False maxDepth taskId depth]
        tree_full_marker_def)
next
  assume t: "taskMap taskId = Some task"
  then show "formatTask_paginated taskMap True compactMode maxDepth taskId depth
          = TaskLine (id_of task) (id_title_line 40 task depth)
            # (if int depth < maxDepth
               then concat (map (\<lambda>c. formatTask_paginated taskMap True compactMode maxDepth c (Suc depth))
                      (subtasks task))
               else [])"
    by (auto simp: formatTask_paginated.simps [of taskMap True compactMode maxDepth taskId depth])
next
  assume t: "taskMap taskId = Some task"
  then show "formatTask_paginated taskMap False True maxDepth taskId depth
          = TaskLine (id_of task) (compact_line task depth)
            # (if int depth < maxDepth
               then concat (map (\<lambda>c. formatTask_paginated taskMap False True maxDepth c (Suc depth))
                      (subtasks task))
               else if subtasks task \<noteq> []
               then [MarkerLine (indent_of depth @ js ''  ... ('' @ show_nat (length (subtasks task))
                       @ js '' more)'' @ nl)]
               else [])"
    by (auto simp: formatTask_paginated.simps [of taskMap False True maxDepth taskId depth]
        page_marker_def)
next
  assume t: "taskMap taskId = Some task"
  then show "formatTask_paginated taskMap False False maxDepth taskId depth
          = TaskLine (id_of task) (page_full_line task depth)
            # (if int depth < maxDepth
               then concat (map (\<lambda>c. formatTask_paginated taskMap False False maxDepth c (Suc depth))
                      (subtasks task))
               else if subtasks task \<noteq> []
               then [MarkerLine (indent_of depth @ js ''  ... ('' @ show_nat (length (subtasks task))
                       @ js '' more)'' @ nl)]
               else [])"
    by (auto simp: formatTask_paginated.simps [of taskMap False False maxDepth taskId depth]
        page_marker_def)
qed

theorem subtree_expansion_witness:
  "formatTask_tree (taskMap_of scenario) False True True 0 1 0
     = [TaskLine 1 (id_title_line 50 (plain_task 1 0 0 (Some [11, 12])) 0),
        MarkerLine (js ''  ... (2 more, use max_depth=1)'' @ nl)]
   \<and> formatTask_paginated (taskMap_of scenario) False True 0 1 0
     = [TaskLine 1 (compact_line (plain_task 1 0 0 (Some [11, 12])) 0),
        MarkerLine (js ''  ... (2 more)'' @ nl)]
   \<and> formatTask_paginated (taskMap_of scenario) False True 1 1 0
     = TaskLine 1 (compact_line (plain_task 1 0 0 (Some [11, 12])) 0)
       # formatTask_paginated (taskMap_of scenario) False True 1 11 1
       @ formatTask_paginated (taskMap_of scenario) False True 1 12 1"
proof -
  have found: "taskMap_of scenario 1 = Some (plain_task 1 0 0 (Some [11, 12]))"
    by (rule scenario_lookup)
  from found
    subtree_expansion [of "taskMap_of scenario" 1 "plain_task 1 0 0 (Some [11, 12])" True 0 0 False True]
    subtree_expansion [of "taskMap_of scenario" 1 "plain_task 1 0 0 (Some [11, 12])" True 1 0 False True]
  show ?thesis
    by (simp add: indent_of_def show_nat.simps show_int_def js_simps)
qed

text \<open>
  Against claim C7 as stated: in the summary's compact mode at depth limit 0, task 1 has
  two children and its output is its line alone, without a marker.
\<close>

theorem summary_compact_no_marker:
  "formatTask_summary (taskMap_of scenario) True True 0 1 0 = [TaskLine 1 (js ''[ ] t [1]'' @ nl)]"
  by (simp add: formatTask_summary.simps taskMap_of_def scenario_def plain_task_def
      compact_line_def status_compact_def indent_of_def show_int_def show_nat.simps js_simps)

section \<open>Missing records, leaves and the stack\<close>




section \<open>The full summary of a forest\<close>

text \<open>
  Claim C4, as the code has it. Let the collection list, in any order, the records of
  a forest: ids pairwise distinct, every record either top-level (\<open>parent_id\<close> 0) or
  listed exactly once, in the \<open>tasks\<close> of its parent, and no tree higher than
  \<open>maxDepth\<close>. Then the full-mode summary with closed tasks included writes one task
  line for every record and no other: the ids of its task lines are the ids of the
  collection, each once, and their number is the total that the statistics compute.
\<close>

theorem full_summary_visits_forest_once:
  "mset ts = mset (concat (map records_of forest)) \<and> list_all (encodes True) forest
   \<and> distinct (map id_of ts) \<and> int (Math_max (map height_of forest)) \<le> maxDepth \<longrightarrow>
     mset (rendered_ids (checkvist_get_tasks_summary ts False (Some maxDepth) True False))
       = mset (map id_of ts)
     \<and> distinct (rendered_ids (checkvist_get_tasks_summary ts False (Some maxDepth) True False))
     \<and> map_option total (analyze ts)
          = Some (length (rendered_ids (checkvist_get_tasks_summary ts False (Some maxDepth) True False)))"
proof (intro impI)
  let ?ids = "rendered_ids (checkvist_get_tasks_summary ts False (Some maxDepth) True False)"
  assume "mset ts = mset (concat (map records_of forest)) \<and> list_all (encodes True) forest
   \<and> distinct (map id_of ts) \<and> int (Math_max (map height_of forest)) \<le> maxDepth"
  then have perm: "mset ts = mset (concat (map records_of forest))"
    and enc: "list_all (encodes True) forest"
    and dist: "distinct (map id_of ts)"
    and deep: "int (Math_max (map height_of forest)) \<le> maxDepth"
    by auto
  have ids: "mset ?ids = mset (map id_of ts)"
    unfolding summary_ids by (rule forest_visited_mset [OF perm enc dist deep])
  then have once: "distinct ?ids"
    using dist by (simp only: mset_eq_imp_distinct_iff [OF ids])
  from ids have "length ?ids = length (map id_of ts)"
    by (rule mset_eq_length)
  then have "map_option total (analyze ts) = Some (length ?ids)"
    using analyze_total_forest [OF perm enc dist] by simp
  with ids once show "mset ?ids = mset (map id_of ts) \<and> distinct ?ids
      \<and> map_option total (analyze ts) = Some (length ?ids)"
    by simp
qed

theorem full_summary_visits_forest_once_witness:
  "mset (rendered_ids (checkvist_get_tasks_summary scenario False (Some 99) True False))
     = mset [1, 11, 12, 121, 2]
   \<and> distinct (rendered_ids (checkvist_get_tasks_summary scenario False (Some 99) True False))
   \<and> map_option total (analyze scenario)
        = Some (length (rendered_ids (checkvist_get_tasks_summary scenario False (Some 99) True False)))"
proof -
  have hyp: "mset scenario = mset (concat (map records_of plain_forest))
    \<and> list_all (encodes True) plain_forest
    \<and> distinct (map id_of scenario) \<and> int (Math_max (map height_of plain_forest)) \<le> 99"
    by (simp add: scenario_def plain_forest_def Math_max_def)
  have ids: "map id_of scenario = [1, 11, 12, 121, 2]"
    by (simp add: scenario_def)
  from hyp full_summary_visits_forest_once [of scenario plain_forest 99]
  have "mset (rendered_ids (checkvist_get_tasks_summary scenario False (Some 99) True False))
       = mset (map id_of scenario)
     \<and> distinct (rendered_ids (checkvist_get_tasks_summary scenario False (Some 99) True False))
     \<and> map_option total (analyze scenario)
          = Some (length (rendered_ids (checkvist_get_tasks_summary scenario False (Some 99) True False)))"
    by blast
  then show ?thesis by (simp only: ids)
qed

text \<open>
  Against claim C4 as stated: a record whose \<open>parent_id\<close> is not 0 and which no record
  lists as a child (its parent is not in the collection) is counted by the statistics and
  never rendered.
\<close>

theorem orphan_not_rendered:
  "rendered_ids (checkvist_get_tasks_summary [plain_task 1 5 0 None] False (Some 99) True False) = []
   \<and> map_option total (analyze [plain_task 1 5 0 None]) = Some 1"
  by (simp add: summary_ids topLevelTasks_of_def analyze_def)


section \<open>Termination of the depth computation\<close>





end
